theory Spec2Isabelle
  imports Main "HOL-Library.Char_ord" "HOL-Library.List_Lexorder"
begin

section \<open>Search parameters\<close>

text \<open>
  \<^verbatim>\<open>type SearchParams = Record<string, string | string[] | undefined>\<close>.
  A parameter value is \<^verbatim>\<open>undefined\<close>, a string or an array of strings. Reading a name
  that is not an own property goes on to the prototype, so a read can also give a number
  (the length of an array), a built-in function (named by its \<^verbatim>\<open>name\<close>) or the object
  \<^verbatim>\<open>Object.prototype\<close> itself. A parameter map is a plain object: the list of its own
  properties in enumeration order, with \<^verbatim>\<open>Object.prototype\<close> as its prototype; a
  well-formed object has distinct keys. Strings are byte strings, ordered by code unit
  (the order of \<^verbatim>\<open>Array.prototype.sort\<close> on ASCII keys).
\<close>

datatype pval =
  Undef | Str string | Arr "string list" | Num nat | Builtin string | ObjectPrototype

type_synonym SearchParams = "(string \<times> pval) list"

definition objectKeys :: "SearchParams \<Rightarrow> string list" where
  "objectKeys ps = map fst ps"

text \<open>
  The members of \<^verbatim>\<open>Object.prototype\<close>: the constructor \<^verbatim>\<open>Object\<close>, the accessor
  \<^verbatim>\<open>__proto__\<close>, whose getter gives the prototype of the object read, and ten functions.
\<close>

definition objectPrototypeFunctions :: "string list" where
  "objectPrototypeFunctions =
     [''__defineGetter__'', ''__defineSetter__'', ''hasOwnProperty'', ''__lookupGetter__'',
      ''__lookupSetter__'', ''isPrototypeOf'', ''propertyIsEnumerable'', ''toString'',
      ''valueOf'', ''toLocaleString'']"

definition objectPrototype :: "string \<Rightarrow> pval" where
  "objectPrototype key =
     (if key = ''constructor'' then Builtin ''Object''
      else if key = ''__proto__'' then ObjectPrototype
      else if key \<in> set objectPrototypeFunctions then Builtin key
      else Undef)"

text \<open>An own property, \<^verbatim>\<open>undefined\<close> when the object has none of that name.\<close>

definition ownValue :: "SearchParams \<Rightarrow> string \<Rightarrow> pval" where
  "ownValue ps k = (case map_of ps k of None \<Rightarrow> Undef | Some v \<Rightarrow> v)"

text \<open>\<^verbatim>\<open>params[key]\<close> on a plain object: the own property, else the member of the prototype.\<close>

definition getProp :: "SearchParams \<Rightarrow> string \<Rightarrow> pval" where
  "getProp ps k = (case map_of ps k of None \<Rightarrow> objectPrototype k | Some v \<Rightarrow> v)"

text \<open>Defining an own property: overwrite it in place, or add it at the end.\<close>

fun assign :: "SearchParams \<Rightarrow> string \<Rightarrow> pval \<Rightarrow> SearchParams" where
  "assign [] k v = [(k, v)]"
| "assign ((n, w) # ps) k v = (if n = k then (k, v) # ps else (n, w) # assign ps k v)"

text \<open>\<^verbatim>\<open>{ ...a, ...b }\<close>: the properties of \<open>a\<close>, then those of \<open>b\<close> assigned over them.\<close>

definition spread :: "SearchParams \<Rightarrow> SearchParams \<Rightarrow> SearchParams" where
  "spread a b = fold (\<lambda>(k, v) acc. assign acc k v) b a"

text \<open>
  JavaScript truthiness: \<^verbatim>\<open>undefined\<close>, the empty string and zero are falsy; every array,
  function and object is truthy.
\<close>

fun truthy :: "pval \<Rightarrow> bool" where
  "truthy Undef = False"
| "truthy (Str s) = (s \<noteq> [])"
| "truthy (Arr vs) = True"
| "truthy (Num n) = (n \<noteq> 0)"
| "truthy (Builtin f) = True"
| "truthy ObjectPrototype = True"

text \<open>\<^verbatim>\<open>Array.prototype.join\<close>.\<close>

fun join :: "string \<Rightarrow> string list \<Rightarrow> string" where
  "join sep [] = []"
| "join sep [x] = x"
| "join sep (x # y # ys) = x @ sep @ join sep (y # ys)"

text \<open>The decimal numeral of a number: the name of an array index.\<close>

definition digitChar :: "nat \<Rightarrow> char" where
  "digitChar n = ''0123456789'' ! n"

fun decimal :: "nat \<Rightarrow> string" where
  "decimal n =
     (if n < 10 then [digitChar n] else decimal (n div 10) @ [digitChar (n mod 10)])"

declare decimal.simps [simp del]

text \<open>
  String conversion in a template literal, and \<^verbatim>\<open>v?.toString()\<close>. The text of a built-in
  function is the one V8 prints.
\<close>

fun toStr :: "pval \<Rightarrow> string" where
  "toStr Undef = ''undefined''"
| "toStr (Str s) = s"
| "toStr (Arr vs) = join '','' vs"
| "toStr (Num n) = decimal n"
| "toStr (Builtin f) = ''function '' @ f @ ''() { [native code] }''"
| "toStr ObjectPrototype = ''[object Object]''"

fun optToString :: "pval \<Rightarrow> string option" where
  "optToString Undef = None"
| "optToString v = Some (toStr v)"

section \<open>Objects with a prototype\<close>

text \<open>
  The object \<^verbatim>\<open>_pendingSearchParams\<close> starts as \<^verbatim>\<open>{}\<close> and is filled by assignment. An
  assignment to the name \<^verbatim>\<open>__proto__\<close> runs the setter of \<^verbatim>\<open>Object.prototype\<close>: an array
  becomes the prototype of the object, a primitive value is ignored, and no own property
  is made. So the object is its own properties and its prototype: \<open>None\<close> for
  \<^verbatim>\<open>Object.prototype\<close>, \<open>Some vs\<close> for the array \<open>vs\<close>.
\<close>

record plainObject =
  properties :: SearchParams
  prototype :: "string list option"

definition emptyObject :: plainObject where
  "emptyObject = \<lparr>properties = [], prototype = None\<rparr>"

text \<open>
  The members of an array: its length, its elements under their indices, then those of
  \<^verbatim>\<open>Array.prototype\<close> (ECMAScript 2023) and of \<^verbatim>\<open>Object.prototype\<close>.
\<close>

definition arrayPrototypeFunctions :: "string list" where
  "arrayPrototypeFunctions =
     [''at'', ''concat'', ''copyWithin'', ''entries'', ''every'', ''fill'', ''filter'', ''find'',
      ''findIndex'', ''findLast'', ''findLastIndex'', ''flat'', ''flatMap'', ''forEach'',
      ''includes'', ''indexOf'', ''join'', ''keys'', ''lastIndexOf'', ''map'', ''pop'', ''push'',
      ''reduce'', ''reduceRight'', ''reverse'', ''shift'', ''slice'', ''some'', ''sort'', ''splice'',
      ''toLocaleString'', ''toReversed'', ''toSorted'', ''toSpliced'', ''toString'', ''unshift'',
      ''values'', ''with'']"

definition arrayIndex :: "string list \<Rightarrow> string \<Rightarrow> string option" where
  "arrayIndex vs key = map_of (zip (map decimal [0..<length vs]) vs) key"

definition arrayMember :: "string list \<Rightarrow> string \<Rightarrow> pval" where
  "arrayMember vs key =
     (if key = ''length'' then Num (length vs)
      else case arrayIndex vs key of
        Some e \<Rightarrow> Str e
      | None \<Rightarrow>
          if key = ''constructor'' then Builtin ''Array''
          else if key = ''__proto__'' then Arr vs
          else if key \<in> set arrayPrototypeFunctions then Builtin key
          else objectPrototype key)"

definition inheritedMember :: "plainObject \<Rightarrow> string \<Rightarrow> pval" where
  "inheritedMember obj key =
     (case prototype obj of None \<Rightarrow> objectPrototype key | Some vs \<Rightarrow> arrayMember vs key)"

text \<open>
  \<^verbatim>\<open>obj[key]\<close> and \<^verbatim>\<open>obj[key] = v\<close>. The value assigned is an own value of a parameter
  map: \<^verbatim>\<open>undefined\<close>, a string or an array. Every other inherited member is a writable
  data property, so the assignment defines an own property.
\<close>

definition getMember :: "plainObject \<Rightarrow> string \<Rightarrow> pval" where
  "getMember obj key =
     (case map_of (properties obj) key of
        None \<Rightarrow> inheritedMember obj key
      | Some v \<Rightarrow> v)"

definition setMember :: "plainObject \<Rightarrow> string \<Rightarrow> pval \<Rightarrow> plainObject" where
  "setMember obj key v =
     (if key = ''__proto__'' \<and> map_of (properties obj) key = None then
        (case v of Arr vs \<Rightarrow> obj\<lparr>prototype := Some vs\<rparr> | _ \<Rightarrow> obj)
      else obj\<lparr>properties := assign (properties obj) key v\<rparr>)"

section \<open>URLSearchParams\<close>

text \<open>
  The browser's \<^verbatim>\<open>URLSearchParams\<close> is a list of name/value pairs. \<^verbatim>\<open>append\<close> adds a
  pair at the end; \<^verbatim>\<open>set\<close> overwrites the first pair of that name and removes the other
  pairs of that name, or appends; \<^verbatim>\<open>toString\<close> is the form-urlencoded serialisation.
\<close>

type_synonym URLSearchParams = "(string \<times> string) list"

definition usp_append :: "string \<Rightarrow> string \<Rightarrow> URLSearchParams \<Rightarrow> URLSearchParams" where
  "usp_append k v u = u @ [(k, v)]"

fun usp_set :: "string \<Rightarrow> string \<Rightarrow> URLSearchParams \<Rightarrow> URLSearchParams" where
  "usp_set k v [] = [(k, v)]"
| "usp_set k v ((n, w) # u) =
     (if n = k then (k, v) # filter (\<lambda>p. fst p \<noteq> k) u else (n, w) # usp_set k v u)"

definition urlencodeKeep :: "char \<Rightarrow> bool" where
  "urlencodeKeep c =
     (c \<in> set ''ABCDEFGHIJKLMNOPQRSTUVWXYZabcdefghijklmnopqrstuvwxyz0123456789*-._'')"

definition hexDigit :: "nat \<Rightarrow> char" where
  "hexDigit n = ''0123456789ABCDEF'' ! n"

definition urlencodeByte :: "char \<Rightarrow> string" where
  "urlencodeByte c =
     (if c = CHR '' '' then ''+''
      else if urlencodeKeep c then [c]
      else [CHR ''%'', hexDigit (of_char c div 16), hexDigit (of_char c mod 16)])"

definition urlencode :: "string \<Rightarrow> string" where
  "urlencode s = concat (map urlencodeByte s)"

definition usp_toString :: "URLSearchParams \<Rightarrow> string" where
  "usp_toString u = join ''&'' (map (\<lambda>p. urlencode (fst p) @ ''='' @ urlencode (snd p)) u)"

section \<open>stringifySearchParams\<close>

text \<open>
  The loop body of \<^verbatim>\<open>stringifySearchParams\<close> for one key, then the function. The argument
  \<open>search\<close> is \<^verbatim>\<open>new URLSearchParams(window.location.search)\<close>, the pairs of the current URL.
\<close>

definition stringifyStep :: "SearchParams \<Rightarrow> string \<Rightarrow> URLSearchParams \<Rightarrow> URLSearchParams" where
  "stringifyStep params key u =
     (let val = getProp params key in
      if truthy val then
        (case val of
           Arr vs \<Rightarrow> fold (\<lambda>v acc. usp_append key v acc) vs u
         | _ \<Rightarrow> usp_set key (toStr val) u)
      else u)"

definition stringifyPairs :: "URLSearchParams \<Rightarrow> SearchParams \<Rightarrow> URLSearchParams" where
  "stringifyPairs search params = fold (stringifyStep params) (sort (objectKeys params)) search"

definition stringifySearchParams :: "URLSearchParams \<Rightarrow> SearchParams \<Rightarrow> string" where
  "stringifySearchParams search params = usp_toString (stringifyPairs search params)"

section \<open>The observable store\<close>

text \<open>
  \<^verbatim>\<open>createStore\<close>: a value and a set of listeners, kept in insertion order. Equality on
  \<open>'a\<close> stands for \<^verbatim>\<open>===\<close>. A listener has an identity and may unsubscribe itself when it
  is called, depending on the value it reads (the listener of \<^verbatim>\<open>CacheRSC\<close> does so);
  \<open>invoked\<close> records every call of a listener, in order.
\<close>

record 'a listener =
  ident :: nat
  unsubscribesOn :: "'a \<Rightarrow> bool"

record 'a Store =
  storeValue :: 'a
  listeners :: "'a listener list"
  invoked :: "nat list"

definition createStore :: "'a \<Rightarrow> 'a Store" where
  "createStore initialValue = \<lparr>storeValue = initialValue, listeners = [], invoked = []\<rparr>"

definition getValue :: "'a Store \<Rightarrow> 'a" where
  "getValue s = storeValue s"

definition subscribe :: "'a listener \<Rightarrow> 'a Store \<Rightarrow> 'a Store" where
  "subscribe l s =
     (if ident l \<in> set (map ident (listeners s)) then s
      else s\<lparr>listeners := listeners s @ [l]\<rparr>)"

definition unsubscribe :: "nat \<Rightarrow> 'a Store \<Rightarrow> 'a Store" where
  "unsubscribe i s = s\<lparr>listeners := filter (\<lambda>l. ident l \<noteq> i) (listeners s)\<rparr>"

definition callListener :: "'a listener \<Rightarrow> 'a Store \<Rightarrow> 'a Store" where
  "callListener l s =
     (let s1 = s\<lparr>invoked := invoked s @ [ident l]\<rparr> in
      if unsubscribesOn l (getValue s1) then unsubscribe (ident l) s1 else s1)"

fun notifyLoop :: "'a listener list \<Rightarrow> 'a Store \<Rightarrow> 'a Store" where
  "notifyLoop [] s = s"
| "notifyLoop (l # ls) s = notifyLoop ls (callListener l s)"

definition notify :: "'a Store \<Rightarrow> 'a Store" where
  "notify s = notifyLoop (listeners s) s"

definition setValue :: "'a \<Rightarrow> 'a Store \<Rightarrow> 'a Store" where
  "setValue newValue s =
     (if newValue = storeValue s then s else notify (s\<lparr>storeValue := newValue\<rparr>))"

section \<open>The provider\<close>

text \<open>
  The pending delta is \<^verbatim>\<open>undefined\<close> or an object; an object is compared by identity, so
  it carries the number it was allocated with.

  The state of one mounted provider: the page's parameters (\<^verbatim>\<open>props.value\<close>), the override
  state, the visited set, the module's pending store, the next free object number, and
  the calls made so far to \<^verbatim>\<open>window.history.pushState\<close> and to \<^verbatim>\<open>router.replace\<close> (their
  URLs, in order). The path name and the pairs of the current URL are read from the
  browser at each call and are arguments of the setter.
\<close>

type_synonym pending = "(nat \<times> plainObject) option"

record state =
  pageSearchParams :: SearchParams
  searchParamsOverride :: "SearchParams option"
  visitedSearchParams :: "string set"
  pendingSearchParamsStore :: "pending Store"
  nextObject :: nat
  pushStateCalls :: "string list"
  replaceCalls :: "string list"

definition responsiveSearchParams :: "state \<Rightarrow> SearchParams" where
  "responsiveSearchParams s =
     spread (pageSearchParams s)
       (case searchParamsOverride s of None \<Rightarrow> [] | Some ov \<Rightarrow> ov)"

text \<open>The effect on \<^verbatim>\<open>[isRoutePending]\<close>: it runs on mount and when the flag has changed.\<close>

definition routePendingEffect :: "bool option \<Rightarrow> bool \<Rightarrow> state \<Rightarrow> state" where
  "routePendingEffect previous isRoutePending s =
     (if previous = Some isRoutePending then s
      else if \<not> isRoutePending then
        s\<lparr>pendingSearchParamsStore := setValue None (pendingSearchParamsStore s)\<rparr>
      else s)"

datatype dispatch = Literal SearchParams | Updater "SearchParams \<Rightarrow> SearchParams"

definition resolveDispatch :: "dispatch \<Rightarrow> SearchParams \<Rightarrow> SearchParams" where
  "resolveDispatch d current = (case d of Updater f \<Rightarrow> f current | Literal m \<Rightarrow> m)"

text \<open>The loop that computes \<^verbatim>\<open>_pendingSearchParams\<close>.\<close>

definition pendingStep :: "SearchParams \<Rightarrow> SearchParams \<Rightarrow> string \<Rightarrow> plainObject \<Rightarrow> plainObject" where
  "pendingStep newSearchParams current key acc =
     (if optToString (getProp newSearchParams key) \<noteq> optToString (getProp current key)
      then setMember acc key (getProp newSearchParams key) else acc)"

definition computePending :: "SearchParams \<Rightarrow> SearchParams \<Rightarrow> plainObject" where
  "computePending newSearchParams current =
     fold (pendingStep newSearchParams current) (objectKeys newSearchParams) emptyObject"

definition setResponsiveSearchParams ::
    "string \<Rightarrow> URLSearchParams \<Rightarrow> dispatch \<Rightarrow> state \<Rightarrow> state" where
  "setResponsiveSearchParams pathname search newSearchParamsDispatch s =
     (let current = responsiveSearchParams s;
          newSearchParams = resolveDispatch newSearchParamsDispatch current;
          s1 = s\<lparr>searchParamsOverride := Some newSearchParams\<rparr>;
          searchParamsString = stringifySearchParams search newSearchParams
      in
      if searchParamsString \<in> visitedSearchParams s1 then
        s1\<lparr>pushStateCalls := pushStateCalls s1 @ [pathname @ ''?'' @ searchParamsString]\<rparr>
      else
        let s2 = s1\<lparr>visitedSearchParams := insert searchParamsString (visitedSearchParams s1)\<rparr>;
            obj = (nextObject s2, computePending newSearchParams current);
            s3 = s2\<lparr>nextObject := Suc (nextObject s2),
                    pendingSearchParamsStore := setValue (Some obj) (pendingSearchParamsStore s2)\<rparr>
        in s3\<lparr>replaceCalls := replaceCalls s3 @
                 [pathname @ (if searchParamsString \<noteq> [] then ''?'' @ searchParamsString else [])]\<rparr>)"

section \<open>ResponsiveSuspense\<close>

text \<open>
  A \<^verbatim>\<open>React.ReactNode\<close>: an element (an object, always truthy), text, a number, a boolean,
  \<^verbatim>\<open>null\<close> or \<^verbatim>\<open>undefined\<close>.
\<close>

datatype ReactNode = Element string | Text string | Number int | Boolean bool | Null | Undefined

fun truthyNode :: "ReactNode \<Rightarrow> bool" where
  "truthyNode (Element e) = True"
| "truthyNode (Text t) = (t \<noteq> [])"
| "truthyNode (Number n) = (n \<noteq> 0)"
| "truthyNode (Boolean b) = b"
| "truthyNode Null = False"
| "truthyNode Undefined = False"

type_synonym childrenCache = "string \<rightharpoonup> ReactNode"

text \<open>\<^verbatim>\<open>Map.prototype.get\<close>: \<^verbatim>\<open>undefined\<close> when the key is missing.\<close>

definition cacheGet :: "childrenCache \<Rightarrow> string \<Rightarrow> ReactNode" where
  "cacheGet childrenCache k = (case childrenCache k of None \<Rightarrow> Undefined | Some n \<Rightarrow> n)"

datatype rendered = Suspend | Render ReactNode

definition useCacheKey :: "SearchParams \<Rightarrow> string list \<Rightarrow> string" where
  "useCacheKey params searchParamsUsed =
     join ''&''
       (map (\<lambda>key. key @ ''='' @ toStr (getProp params key))
         (filter (\<lambda>key. truthy (getProp params key)) searchParamsUsed))"

definition useIsSearchParamsPending :: "pending \<Rightarrow> string list \<Rightarrow> bool" where
  "useIsSearchParamsPending pendingSearchParams searchParamNames =
     (case pendingSearchParams of
        None \<Rightarrow> False
      | Some obj \<Rightarrow> list_ex (\<lambda>key. truthy (getMember (snd obj) key)) searchParamNames)"

text \<open>
  \<^verbatim>\<open>CacheRSC\<close>. Throwing the promise runs its executor, which subscribes a new listener;
  that listener resolves and unsubscribes itself once the store holds \<^verbatim>\<open>undefined\<close>.
\<close>

definition CacheRSC ::
    "bool \<Rightarrow> bool \<Rightarrow> string \<Rightarrow> ReactNode \<Rightarrow> childrenCache \<Rightarrow> state
      \<Rightarrow> rendered \<times> childrenCache \<times> state" where
  "CacheRSC isPending suspendOnTransition cacheKey children childrenCache s =
     (if isPending \<and> suspendOnTransition then
        (Suspend, childrenCache,
         s\<lparr>nextObject := Suc (nextObject s),
           pendingSearchParamsStore :=
             subscribe \<lparr>ident = nextObject s, unsubscribesOn = (\<lambda>val. val = None)\<rparr>
               (pendingSearchParamsStore s)\<rparr>)
      else
        let cachedChildren = cacheGet childrenCache cacheKey in
        if truthyNode cachedChildren then (Render cachedChildren, childrenCache, s)
        else if \<not> isPending then (Render children, childrenCache(cacheKey \<mapsto> children), s)
        else (Render children, childrenCache, s))"

definition ResponsiveSuspense ::
    "string list \<Rightarrow> bool option \<Rightarrow> ReactNode \<Rightarrow> childrenCache \<Rightarrow> state
      \<Rightarrow> rendered \<times> childrenCache \<times> state" where
  "ResponsiveSuspense searchParamsUsed suspendOnTransition children childrenCache s =
     (let cacheKey = useCacheKey (responsiveSearchParams s) searchParamsUsed;
          isPending = useIsSearchParamsPending (getValue (pendingSearchParamsStore s)) searchParamsUsed
      in CacheRSC isPending (case suspendOnTransition of None \<Rightarrow> True | Some b \<Rightarrow> b)
           cacheKey children childrenCache s)"

section \<open>Reference definitions and example states\<close>

text \<open>The resolved map of a setter call, and the state of a provider that has just mounted.\<close>

abbreviation requested :: "dispatch \<Rightarrow> state \<Rightarrow> SearchParams" where
  "requested d s \<equiv> resolveDispatch d (responsiveSearchParams s)"

definition mountState :: "SearchParams \<Rightarrow> state" where
  "mountState page =
     \<lparr>pageSearchParams = page, searchParamsOverride = None, visitedSearchParams = {},
      pendingSearchParamsStore = createStore None, nextObject = 0,
      pushStateCalls = [], replaceCalls = []\<rparr>"


definition cacheKey_spec :: "SearchParams \<Rightarrow> string list \<Rightarrow> string" where
  "cacheKey_spec merged declared =
     join ''&''
       (map (\<lambda>p. fst p @ ''='' @ toStr (snd p))
         (sort_key fst
           (filter (\<lambda>p. snd p \<noteq> Undef) (filter (\<lambda>p. fst p \<in> set declared) merged))))"

fun isScalar :: "pval \<Rightarrow> bool" where
  "isScalar Undef = True"
| "isScalar (Str s) = True"
| "isScalar v = False"

definition demoStore :: "nat Store" where
  "demoStore =
     \<lparr>storeValue = 1,
      listeners = [\<lparr>ident = 7, unsubscribesOn = (\<lambda>v. False)\<rparr>,
                   \<lparr>ident = 9, unsubscribesOn = (\<lambda>v. v = 2)\<rparr>],
      invoked = []\<rparr>"

definition janState :: state where
  "janState =
     (mountState [])\<lparr>searchParamsOverride := Some [(''from'', Str ''jan'')],
       visitedSearchParams := {''from=jan'', ''from=feb''},
       pendingSearchParamsStore :=
         \<lparr>storeValue = Some (3, \<lparr>properties = [(''from'', Str ''feb'')], prototype = None\<rparr>),
          listeners = [\<lparr>ident = 4, unsubscribesOn = (\<lambda>v. v = None)\<rparr>],
          invoked = []\<rparr>,
       nextObject := 5\<rparr>"

definition abState :: state where
  "abState = mountState [(''a'', Str ''1''), (''b'', Str ''2'')]"

definition abSearch :: URLSearchParams where
  "abSearch = [(''a'', ''1''), (''b'', ''2'')]"


definition tState :: state where
  "tState = mountState [(''t'', Str ''x,y'')]"

definition plain :: "SearchParams \<Rightarrow> plainObject" where
  "plain ps = \<lparr>properties = ps, prototype = None\<rparr>"

section \<open>Objects\<close>

lemma objectKeys_Nil: "objectKeys [] = []"
  by (simp add: objectKeys_def)

lemma getProp_absent: "k \<notin> set (objectKeys ps) \<Longrightarrow> getProp ps k = objectPrototype k"
  by (simp add: getProp_def objectKeys_def map_of_eq_None_iff [THEN iffD2])

lemma ownValue_absent: "k \<notin> set (objectKeys ps) \<Longrightarrow> ownValue ps k = Undef"
  by (simp add: ownValue_def objectKeys_def map_of_eq_None_iff [THEN iffD2])

lemma getProp_own_key: "k \<in> set (objectKeys ps) \<Longrightarrow> getProp ps k = ownValue ps k"
proof -
  assume "k \<in> set (objectKeys ps)"
  then have "map_of ps k \<noteq> None"
    by (simp add: objectKeys_def map_of_eq_None_iff)
  then show ?thesis by (auto simp: getProp_def ownValue_def)
qed

lemma getProp_member:
  "distinct (objectKeys ps) \<Longrightarrow> (k, v) \<in> set ps \<Longrightarrow> getProp ps k = v"
  by (simp add: getProp_def objectKeys_def)

lemma getProp_cases:
  "k \<in> set (objectKeys ps) \<Longrightarrow> (k, getProp ps k) \<in> set ps"
proof -
  assume "k \<in> set (objectKeys ps)"
  then have "map_of ps k \<noteq> None"
    by (simp add: objectKeys_def map_of_eq_None_iff)
  then obtain v where "map_of ps k = Some v" by blast
  then show ?thesis by (auto simp: getProp_def dest: map_of_SomeD)
qed

lemma truthy_iff_set: "truthy v \<or> v = Undef \<Longrightarrow> truthy v \<longleftrightarrow> v \<noteq> Undef"
  by (cases v) auto


lemma map_of_assign: "map_of (assign ps k v) = (map_of ps)(k \<mapsto> v)"
  by (induction ps k v rule: assign.induct) auto

lemma keys_assign: "set (objectKeys (assign ps k v)) = insert k (set (objectKeys ps))"
  by (induction ps k v rule: assign.induct) (auto simp: objectKeys_def)

lemma getProp_assign: "getProp (assign ps k v) k' = (if k' = k then v else getProp ps k')"
  by (simp add: getProp_def map_of_assign)

lemma getProp_fold_assign_other:
  "k \<notin> set (objectKeys b) \<Longrightarrow>
   getProp (fold (\<lambda>(k, v) acc. assign acc k v) b a) k = getProp a k"
  by (induction b arbitrary: a) (auto simp: objectKeys_def getProp_assign)

lemma getProp_fold_assign_key:
  "distinct (objectKeys b) \<Longrightarrow> k \<in> set (objectKeys b) \<Longrightarrow>
   getProp (fold (\<lambda>(k, v) acc. assign acc k v) b a) k = getProp b k"
proof (induction b arbitrary: a)
  case Nil
  then show ?case by (simp add: objectKeys_def)
next
  case (Cons p b)
  obtain n w where p: "p = (n, w)" by (cases p)
  show ?case
  proof (cases "k = n")
    case True
    with Cons.prems p have "k \<notin> set (objectKeys b)" by (simp add: objectKeys_def)
    then have "getProp (fold (\<lambda>(k, v) acc. assign acc k v) b (assign a n w)) k
                 = getProp (assign a n w) k"
      by (rule getProp_fold_assign_other)
    moreover have "getProp (p # b) k = w"
      using True p by (simp add: getProp_def)
    ultimately show ?thesis
      using True p by (simp add: getProp_assign)
  next
    case False
    with Cons.prems p have "distinct (objectKeys b)" "k \<in> set (objectKeys b)"
      by (auto simp: objectKeys_def)
    from Cons.IH [OF this] False p show ?thesis by (simp add: getProp_def)
  qed
qed

lemma getProp_spread:
  "distinct (objectKeys b) \<Longrightarrow>
   getProp (spread a b) k = (if k \<in> set (objectKeys b) then getProp b k else getProp a k)"
  by (simp add: spread_def getProp_fold_assign_other getProp_fold_assign_key)

lemma getProp_spread_other:
  "k \<notin> set (objectKeys b) \<Longrightarrow> getProp (spread a b) k = getProp a k"
  by (simp add: spread_def getProp_fold_assign_other)

lemma sort_keys_permutation:
  assumes "distinct (objectKeys ps)" "distinct (objectKeys qs)" "set ps = set qs"
  shows "sort (objectKeys ps) = sort (objectKeys qs)"
proof (rule sorted_distinct_set_unique)
  show "set (sort (objectKeys ps)) = set (sort (objectKeys qs))"
    using assms(3) by (simp add: objectKeys_def)
qed (simp_all add: assms)

lemma getProp_permutation:
  assumes "distinct (objectKeys ps)" "distinct (objectKeys qs)" "set ps = set qs"
  shows "getProp ps = getProp qs"
proof -
  have "map_of ps = map_of qs"
    using assms by (simp add: objectKeys_def map_of_inject_set)
  then show ?thesis by (simp add: getProp_def fun_eq_iff)
qed

section \<open>The store\<close>

lemma callListener_value: "storeValue (callListener l s) = storeValue s"
  by (simp add: callListener_def unsubscribe_def Let_def)

lemma callListener_invoked: "invoked (callListener l s) = invoked s @ [ident l]"
  by (simp add: callListener_def unsubscribe_def Let_def)

lemma notifyLoop_value: "storeValue (notifyLoop ls s) = storeValue s"
  by (induction ls arbitrary: s) (simp_all add: callListener_value)

lemma notifyLoop_invoked: "invoked (notifyLoop ls s) = invoked s @ map ident ls"
  by (induction ls arbitrary: s) (simp_all add: callListener_invoked)

lemma getValue_setValue: "getValue (setValue v s) = v"
  by (simp add: getValue_def setValue_def notify_def notifyLoop_value)

lemma invoked_setValue:
  "v \<noteq> getValue s \<Longrightarrow> invoked (setValue v s) = invoked s @ map ident (listeners s)"
  by (simp add: getValue_def setValue_def notify_def notifyLoop_invoked)

text \<open>
  C8. \<^verbatim>\<open>setValue(v)\<close> with the value the store already holds changes nothing and calls
  no listener; with any other value it stores \<open>v\<close> and calls every registered listener,
  once each, before it returns.
\<close>

theorem setValue_reference_equal:
  "(v = getValue s \<longrightarrow> setValue v s = s) \<and>
   (v \<noteq> getValue s \<longrightarrow>
      getValue (setValue v s) = v \<and>
      invoked (setValue v s) = invoked s @ map ident (listeners s))"
  by (simp add: getValue_def setValue_def notify_def notifyLoop_value notifyLoop_invoked)

theorem setValue_reference_equal_witness:
  "setValue 1 demoStore = demoStore \<and>
   getValue (setValue 2 demoStore) = 2 \<and> invoked (setValue 2 demoStore) = [7, 9]"
  using setValue_reference_equal [of 1 demoStore] setValue_reference_equal [of 2 demoStore]
  by (simp add: demoStore_def getValue_def)

section \<open>The setter\<close>

lemma setter_override:
  "searchParamsOverride (setResponsiveSearchParams pathname search d s) = Some (requested d s)"
  by (simp add: setResponsiveSearchParams_def Let_def)

lemma setter_page:
  "pageSearchParams (setResponsiveSearchParams pathname search d s) = pageSearchParams s"
  by (simp add: setResponsiveSearchParams_def Let_def)

lemma setter_new_store:
  "stringifySearchParams search (requested d s) \<notin> visitedSearchParams s \<Longrightarrow>
   getValue (pendingSearchParamsStore (setResponsiveSearchParams pathname search d s))
     = Some (nextObject s, computePending (requested d s) (responsiveSearchParams s))"
  by (simp add: setResponsiveSearchParams_def Let_def getValue_setValue)

lemma map_of_None_keys: "k \<notin> set (objectKeys ps) \<Longrightarrow> map_of ps k = None"
  by (simp add: objectKeys_def map_of_eq_None_iff)

lemma keys_setMember:
  "''__proto__'' \<notin> set (objectKeys (properties acc)) \<Longrightarrow>
   set (objectKeys (properties (setMember acc k v))) =
     (if k = ''__proto__'' then set (objectKeys (properties acc))
      else insert k (set (objectKeys (properties acc))))"
  by (cases v) (simp_all add: setMember_def keys_assign map_of_None_keys)

lemma map_of_setMember:
  "''__proto__'' \<notin> set (objectKeys (properties acc)) \<Longrightarrow>
   map_of (properties (setMember acc k v)) =
     (if k = ''__proto__'' then map_of (properties acc) else (map_of (properties acc))(k \<mapsto> v))"
  by (cases v) (simp_all add: setMember_def map_of_assign map_of_None_keys)

lemma prototype_setMember:
  "''__proto__'' \<notin> set (objectKeys (properties acc)) \<Longrightarrow>
   prototype (setMember acc k v) =
     (if k = ''__proto__'' then (case v of Arr vs \<Rightarrow> Some vs | _ \<Rightarrow> prototype acc)
      else prototype acc)"
  by (cases v) (simp_all add: setMember_def map_of_None_keys)

lemma pendingStep_invariant:
  "''__proto__'' \<notin> set (objectKeys (properties acc)) \<Longrightarrow>
   ''__proto__'' \<notin> set (objectKeys (properties (pendingStep new cur k acc)))"
  by (simp add: pendingStep_def keys_setMember)

lemma keys_fold_pendingStep:
  "''__proto__'' \<notin> set (objectKeys (properties acc)) \<Longrightarrow>
   set (objectKeys (properties (fold (pendingStep new cur) ks acc))) =
     set (objectKeys (properties acc)) \<union>
     {k \<in> set ks. k \<noteq> ''__proto__'' \<and>
        optToString (getProp new k) \<noteq> optToString (getProp cur k)}"
proof (induction ks arbitrary: acc)
  case Nil
  then show ?case by simp
next
  case (Cons k ks)
  have "set (objectKeys (properties (pendingStep new cur k acc))) =
          set (objectKeys (properties acc)) \<union>
          {j \<in> {k}. j \<noteq> ''__proto__'' \<and>
             optToString (getProp new j) \<noteq> optToString (getProp cur j)}"
    using Cons.prems by (auto simp: pendingStep_def keys_setMember)
  with Cons.IH [OF pendingStep_invariant [OF Cons.prems]] show ?case by auto
qed

lemma map_of_fold_pendingStep:
  "''__proto__'' \<notin> set (objectKeys (properties acc)) \<Longrightarrow>
   map_of (properties (fold (pendingStep new cur) ks acc)) k =
     (if k \<in> set ks \<and> k \<noteq> ''__proto__'' \<and>
         optToString (getProp new k) \<noteq> optToString (getProp cur k)
      then Some (getProp new k) else map_of (properties acc) k)"
proof (induction ks arbitrary: acc)
  case Nil
  then show ?case by simp
next
  case (Cons j ks)
  have "map_of (properties (pendingStep new cur j acc)) k =
          (if k = j \<and> k \<noteq> ''__proto__'' \<and>
              optToString (getProp new k) \<noteq> optToString (getProp cur k)
           then Some (getProp new k) else map_of (properties acc) k)"
    using Cons.prems by (auto simp: pendingStep_def map_of_setMember)
  with Cons.IH [OF pendingStep_invariant [OF Cons.prems]] show ?case by auto
qed

lemma prototype_fold_pendingStep:
  "''__proto__'' \<notin> set (objectKeys (properties acc)) \<Longrightarrow>
   prototype (fold (pendingStep new cur) ks acc) =
     (if ''__proto__'' \<in> set ks \<and>
         optToString (getProp new ''__proto__'') \<noteq> optToString (getProp cur ''__proto__'')
      then (case getProp new ''__proto__'' of Arr vs \<Rightarrow> Some vs | _ \<Rightarrow> prototype acc)
      else prototype acc)"
proof (induction ks arbitrary: acc)
  case Nil
  then show ?case by simp
next
  case (Cons j ks)
  have "prototype (pendingStep new cur j acc) =
          (if j = ''__proto__'' \<and>
              optToString (getProp new ''__proto__'') \<noteq> optToString (getProp cur ''__proto__'')
           then (case getProp new ''__proto__'' of Arr vs \<Rightarrow> Some vs | _ \<Rightarrow> prototype acc)
           else prototype acc)"
    using Cons.prems by (simp add: pendingStep_def prototype_setMember)
  with Cons.IH [OF pendingStep_invariant [OF Cons.prems]] show ?case
    by (auto split: pval.splits)
qed

lemma emptyObject_keys: "''__proto__'' \<notin> set (objectKeys (properties emptyObject))"
  by (simp add: emptyObject_def objectKeys_def)

lemma emptyObject_prototype: "prototype emptyObject = None"
  by (simp add: emptyObject_def)

lemma keys_computePending:
  "k \<in> set (objectKeys (properties (computePending new cur))) \<longleftrightarrow>
     k \<in> set (objectKeys new) \<and> k \<noteq> ''__proto__'' \<and>
     optToString (getProp new k) \<noteq> optToString (getProp cur k)"
  by (simp add: computePending_def keys_fold_pendingStep [OF emptyObject_keys])
    (simp add: emptyObject_def objectKeys_Nil)

lemma getMember_computePending:
  "k \<in> set (objectKeys (properties (computePending new cur))) \<Longrightarrow>
   getMember (computePending new cur) k = getProp new k"
  using keys_computePending [of k new cur]
  by (simp add: computePending_def getMember_def map_of_fold_pendingStep [OF emptyObject_keys])

lemma prototype_computePending:
  "prototype (computePending new cur) =
     (if ''__proto__'' \<in> set (objectKeys new) \<and>
         optToString (getProp new ''__proto__'') \<noteq> optToString (getProp cur ''__proto__'')
      then (case getProp new ''__proto__'' of Arr vs \<Rightarrow> Some vs | _ \<Rightarrow> None)
      else None)"
  unfolding computePending_def prototype_fold_pendingStep [OF emptyObject_keys]
    emptyObject_prototype
  by simp

lemma optToString_scalar:
  "isScalar v \<Longrightarrow> isScalar w \<Longrightarrow> optToString v = optToString w \<longleftrightarrow> v = w"
  by (cases v; cases w) auto

lemma stringify_from_feb:
  "stringifySearchParams [(''from'', ''jan'')] (requested (Literal [(''from'', Str ''feb'')]) janState)
     = ''from=feb''"
  by code_simp

text \<open>
  C1. When the string of the resolved map is already in the visited set, the setter leaves
  the pending store as it was (value, listeners and calls), asks the router for nothing,
  adds nothing to the visited set, and pushes the URL \<open>pathname?string\<close> to the history.
\<close>

theorem replay_visited:
  assumes "stringifySearchParams search (requested d s) \<in> visitedSearchParams s"
  shows "pendingSearchParamsStore (setResponsiveSearchParams pathname search d s)
           = pendingSearchParamsStore s \<and>
         replaceCalls (setResponsiveSearchParams pathname search d s) = replaceCalls s \<and>
         visitedSearchParams (setResponsiveSearchParams pathname search d s)
           = visitedSearchParams s \<and>
         nextObject (setResponsiveSearchParams pathname search d s) = nextObject s \<and>
         pushStateCalls (setResponsiveSearchParams pathname search d s)
           = pushStateCalls s @ [pathname @ ''?'' @ stringifySearchParams search (requested d s)]"
  using assms by (simp add: setResponsiveSearchParams_def Let_def)

theorem replay_visited_witness:
  "stringifySearchParams [(''from'', ''jan'')] (requested (Literal [(''from'', Str ''feb'')]) janState)
     \<in> visitedSearchParams janState \<and>
   pendingSearchParamsStore
      (setResponsiveSearchParams ''/p'' [(''from'', ''jan'')] (Literal [(''from'', Str ''feb'')]) janState)
     = pendingSearchParamsStore janState \<and>
   replaceCalls
      (setResponsiveSearchParams ''/p'' [(''from'', ''jan'')] (Literal [(''from'', Str ''feb'')]) janState)
     = [] \<and>
   pushStateCalls
      (setResponsiveSearchParams ''/p'' [(''from'', ''jan'')] (Literal [(''from'', Str ''feb'')]) janState)
     = [''/p?from=feb'']"
proof -
  have v: "stringifySearchParams [(''from'', ''jan'')]
             (requested (Literal [(''from'', Str ''feb'')]) janState)
           \<in> visitedSearchParams janState"
    by (simp add: stringify_from_feb) (simp add: janState_def)
  have e: "replaceCalls janState = []" "pushStateCalls janState = []"
    by (simp_all add: janState_def mountState_def)
  from replay_visited [OF v, of "''/p''"] v e show ?thesis
    by (simp add: stringify_from_feb)
qed

text \<open>
  C4. When the string of the resolved map is not yet visited, the setter stores a new
  delta object. Its own keys are exactly the keys of the resolved map, other than
  \<^verbatim>\<open>__proto__\<close>, whose string conversion (\<^verbatim>\<open>undefined\<close> when unset, the string itself,
  the comma-joined elements of a list) differs from that of \<^verbatim>\<open>merged[key]\<close>, the previous
  merged value as the read gives it: for a name the merged map does not own, that is the
  member of \<^verbatim>\<open>Object.prototype\<close> of that name. Each such key holds its new value. A key
  \<^verbatim>\<open>__proto__\<close> that differs makes a list value the prototype of the delta and is
  otherwise ignored. For two scalar values the comparison is value inequality. A name
  outside the resolved map is never a key of the delta.
\<close>

theorem pending_delta_of_new_keys:
  assumes "stringifySearchParams search (requested d s) \<notin> visitedSearchParams s"
  shows "getValue (pendingSearchParamsStore (setResponsiveSearchParams pathname search d s))
           = Some (nextObject s, computePending (requested d s) (responsiveSearchParams s)) \<and>
         (\<forall>k. k \<in> set (objectKeys (properties
                  (computePending (requested d s) (responsiveSearchParams s))))
                \<longleftrightarrow>
              k \<in> set (objectKeys (requested d s)) \<and> k \<noteq> ''__proto__'' \<and>
              optToString (getProp (requested d s) k)
                \<noteq> optToString (getProp (responsiveSearchParams s) k)) \<and>
         (\<forall>k. k \<in> set (objectKeys (properties
                  (computePending (requested d s) (responsiveSearchParams s))))
                \<longrightarrow>
              getMember (computePending (requested d s) (responsiveSearchParams s)) k
                = getProp (requested d s) k) \<and>
         prototype (computePending (requested d s) (responsiveSearchParams s))
           = (if ''__proto__'' \<in> set (objectKeys (requested d s)) \<and>
                 optToString (getProp (requested d s) ''__proto__'')
                   \<noteq> optToString (getProp (responsiveSearchParams s) ''__proto__'')
              then (case getProp (requested d s) ''__proto__'' of
                      Arr vs \<Rightarrow> Some vs | _ \<Rightarrow> None)
              else None) \<and>
         (\<forall>k. isScalar (getProp (requested d s) k) \<and>
              isScalar (getProp (responsiveSearchParams s) k) \<longrightarrow>
              (optToString (getProp (requested d s) k)
                 \<noteq> optToString (getProp (responsiveSearchParams s) k)
               \<longleftrightarrow> getProp (requested d s) k \<noteq> getProp (responsiveSearchParams s) k))"
proof (intro conjI allI impI)
  show "getValue (pendingSearchParamsStore (setResponsiveSearchParams pathname search d s))
          = Some (nextObject s, computePending (requested d s) (responsiveSearchParams s))"
    using assms by (rule setter_new_store)
  show "prototype (computePending (requested d s) (responsiveSearchParams s))
           = (if ''__proto__'' \<in> set (objectKeys (requested d s)) \<and>
                 optToString (getProp (requested d s) ''__proto__'')
                   \<noteq> optToString (getProp (responsiveSearchParams s) ''__proto__'')
              then (case getProp (requested d s) ''__proto__'' of
                      Arr vs \<Rightarrow> Some vs | _ \<Rightarrow> None)
              else None)"
    by (rule prototype_computePending)
qed (auto simp: keys_computePending getMember_computePending optToString_scalar)

theorem pending_delta_of_new_keys_witness:
  "stringifySearchParams abSearch
      (requested (Literal [(''a'', Str ''3''), (''b'', Str ''2'')]) abState)
     \<notin> visitedSearchParams abState \<and>
   getValue (pendingSearchParamsStore
      (setResponsiveSearchParams ''/p'' abSearch
         (Literal [(''a'', Str ''3''), (''b'', Str ''2'')]) abState))
     = Some (0, plain [(''a'', Str ''3'')]) \<and>
   stringifySearchParams [] (requested (Literal [(''constructor'', Undef)]) (mountState []))
     \<notin> visitedSearchParams (mountState []) \<and>
   getValue (pendingSearchParamsStore
      (setResponsiveSearchParams ''/p'' [] (Literal [(''constructor'', Undef)]) (mountState [])))
     = Some (0, plain [(''constructor'', Undef)])"
proof -
  have h: "stringifySearchParams abSearch
             (requested (Literal [(''a'', Str ''3''), (''b'', Str ''2'')]) abState)
           \<notin> visitedSearchParams abState"
    by code_simp
  have e: "nextObject abState = 0"
    "computePending (requested (Literal [(''a'', Str ''3''), (''b'', Str ''2'')]) abState)
       (responsiveSearchParams abState) = plain [(''a'', Str ''3'')]"
    by code_simp+
  have h': "stringifySearchParams [] (requested (Literal [(''constructor'', Undef)]) (mountState []))
           \<notin> visitedSearchParams (mountState [])"
    by code_simp
  have e': "nextObject (mountState []) = 0"
    "computePending (requested (Literal [(''constructor'', Undef)]) (mountState []))
       (responsiveSearchParams (mountState [])) = plain [(''constructor'', Undef)]"
    by code_simp+
  from pending_delta_of_new_keys [OF h, of "''/p''"] e
  have a: "getValue (pendingSearchParamsStore
      (setResponsiveSearchParams ''/p'' abSearch
         (Literal [(''a'', Str ''3''), (''b'', Str ''2'')]) abState))
     = Some (0, plain [(''a'', Str ''3'')])"
    by simp
  from pending_delta_of_new_keys [OF h', of "''/p''"] e'
  have b: "getValue (pendingSearchParamsStore
      (setResponsiveSearchParams ''/p'' [] (Literal [(''constructor'', Undef)]) (mountState [])))
     = Some (0, plain [(''constructor'', Undef)])"
    by simp
  from h a h' b show ?thesis by simp
qed

text \<open>
  The delta is not the set of all parameters whose value differs: with the page at
  \<open>a=1&b=2\<close>, setting \<open>{a: 3}\<close> stores the delta \<open>{a: 3}\<close>, without \<open>b\<close>, although
  \<open>b\<close> is set in the merged map and unset in the new one; and setting the list
  \<open>[x, y]\<close> over the string \<open>x,y\<close> stores an empty delta.
\<close>

theorem pending_delta_counterexample:
  "stringifySearchParams abSearch (requested (Literal [(''a'', Str ''3'')]) abState)
     \<notin> visitedSearchParams abState \<and>
   getValue (pendingSearchParamsStore
      (setResponsiveSearchParams ''/p'' abSearch (Literal [(''a'', Str ''3'')]) abState))
     = Some (0, plain [(''a'', Str ''3'')]) \<and>
   getProp (requested (Literal [(''a'', Str ''3'')]) abState) ''b''
     \<noteq> getProp (responsiveSearchParams abState) ''b'' \<and>
   ''b'' \<notin> set (objectKeys (properties (plain [(''a'', Str ''3'')]))) \<and>
   stringifySearchParams [(''t'', ''x,y'')] (requested (Literal [(''t'', Arr [''x'', ''y''])]) tState)
     \<notin> visitedSearchParams tState \<and>
   getValue (pendingSearchParamsStore
      (setResponsiveSearchParams ''/p'' [(''t'', ''x,y'')] (Literal [(''t'', Arr [''x'', ''y''])]) tState))
     = Some (0, plain []) \<and>
   getProp (requested (Literal [(''t'', Arr [''x'', ''y''])]) tState) ''t''
     \<noteq> getProp (responsiveSearchParams tState) ''t''"
  by (intro conjI; code_simp)

text \<open>
  C9. Every setter call makes the resolved map the whole override: afterwards the merged
  parameters are the page snapshot with the resolved map spread over it, so a key outside
  the resolved map reads as in the page snapshot (unset when the page lacks it), and a key
  of a well-formed resolved map reads as in that map.
\<close>

theorem setter_replaces_override:
  "searchParamsOverride (setResponsiveSearchParams pathname search d s) = Some (requested d s) \<and>
   responsiveSearchParams (setResponsiveSearchParams pathname search d s)
     = spread (pageSearchParams s) (requested d s) \<and>
   (\<forall>k. k \<notin> set (objectKeys (requested d s)) \<longrightarrow>
      getProp (responsiveSearchParams (setResponsiveSearchParams pathname search d s)) k
        = getProp (pageSearchParams s) k) \<and>
   (distinct (objectKeys (requested d s)) \<longrightarrow>
      (\<forall>k. k \<in> set (objectKeys (requested d s)) \<longrightarrow>
         getProp (responsiveSearchParams (setResponsiveSearchParams pathname search d s)) k
           = getProp (requested d s) k))"
  by (simp add: responsiveSearchParams_def [of "setResponsiveSearchParams pathname search d s"]
      setter_override setter_page getProp_spread getProp_spread_other)

theorem setter_replaces_override_witness:
  "searchParamsOverride
      (setResponsiveSearchParams ''/p'' [(''from'', ''jan'')] (Literal [(''to'', Str ''x'')]) janState)
     = Some [(''to'', Str ''x'')] \<and>
   getProp (responsiveSearchParams janState) ''from'' = Str ''jan'' \<and>
   getProp (responsiveSearchParams
      (setResponsiveSearchParams ''/p'' [(''from'', ''jan'')] (Literal [(''to'', Str ''x'')]) janState))
      ''from'' = Undef \<and>
   getProp (responsiveSearchParams
      (setResponsiveSearchParams ''/p'' [(''from'', ''jan'')] (Literal [(''to'', Str ''x'')]) janState))
      ''to'' = Str ''x''"
proof -
  have e: "requested (Literal [(''to'', Str ''x'')]) janState = [(''to'', Str ''x'')]"
    "getProp (pageSearchParams janState) ''from'' = Undef"
    "getProp (responsiveSearchParams janState) ''from'' = Str ''jan''"
    "getProp [(''to'', Str ''x'')] ''to'' = Str ''x''"
    by code_simp+
  note t = setter_replaces_override
    [of "''/p''" "[(''from'', ''jan'')]" "Literal [(''to'', Str ''x'')]" janState]
  from t e(1) have a: "searchParamsOverride
      (setResponsiveSearchParams ''/p'' [(''from'', ''jan'')] (Literal [(''to'', Str ''x'')]) janState)
     = Some [(''to'', Str ''x'')]"
    by simp
  from t have "\<forall>k. k \<notin> set (objectKeys (requested (Literal [(''to'', Str ''x'')]) janState)) \<longrightarrow>
      getProp (responsiveSearchParams
        (setResponsiveSearchParams ''/p'' [(''from'', ''jan'')] (Literal [(''to'', Str ''x'')]) janState)) k
        = getProp (pageSearchParams janState) k"
    by blast
  with e(1,2) have b: "getProp (responsiveSearchParams
      (setResponsiveSearchParams ''/p'' [(''from'', ''jan'')] (Literal [(''to'', Str ''x'')]) janState))
      ''from'' = Undef"
    by (simp add: objectKeys_def)
  from t have "distinct (objectKeys (requested (Literal [(''to'', Str ''x'')]) janState)) \<longrightarrow>
      (\<forall>k. k \<in> set (objectKeys (requested (Literal [(''to'', Str ''x'')]) janState)) \<longrightarrow>
         getProp (responsiveSearchParams
           (setResponsiveSearchParams ''/p'' [(''from'', ''jan'')] (Literal [(''to'', Str ''x'')]) janState)) k
           = getProp (requested (Literal [(''to'', Str ''x'')]) janState) k)"
    by blast
  with e(1,4) have c: "getProp (responsiveSearchParams
      (setResponsiveSearchParams ''/p'' [(''from'', ''jan'')] (Literal [(''to'', Str ''x'')]) janState))
      ''to'' = Str ''x''"
    by (simp add: objectKeys_def)
  from a b c e(3) show ?thesis by simp
qed

text \<open>
  C5. When the transition flag turns to not pending (or the provider mounts with the flag
  off), the effect sets the pending store to \<^verbatim>\<open>undefined\<close> whatever the state is: a delta
  that was there is replaced and every subscribed listener is called, no fragment is
  pending afterwards and none suspends. The effect reads nothing of the router's outcome.
\<close>

theorem settle_clears_pending:
  assumes "previous \<noteq> Some False"
  shows "getValue (pendingSearchParamsStore (routePendingEffect previous False s)) = None \<and>
         (getValue (pendingSearchParamsStore s) \<noteq> None \<longrightarrow>
            invoked (pendingSearchParamsStore (routePendingEffect previous False s))
              = invoked (pendingSearchParamsStore s)
                  @ map ident (listeners (pendingSearchParamsStore s))) \<and>
         \<not> useIsSearchParamsPending
             (getValue (pendingSearchParamsStore (routePendingEffect previous False s))) names \<and>
         fst (ResponsiveSuspense names suspendOnTransition children childrenCache
                (routePendingEffect previous False s)) \<noteq> Suspend"
proof -
  have st: "pendingSearchParamsStore (routePendingEffect previous False s)
              = setValue None (pendingSearchParamsStore s)"
    using assms by (simp add: routePendingEffect_def)
  have v: "getValue (pendingSearchParamsStore (routePendingEffect previous False s)) = None"
    by (simp add: st getValue_setValue)
  have i: "getValue (pendingSearchParamsStore s) \<noteq> None \<longrightarrow>
            invoked (pendingSearchParamsStore (routePendingEffect previous False s))
              = invoked (pendingSearchParamsStore s)
                  @ map ident (listeners (pendingSearchParamsStore s))"
    using invoked_setValue [of None "pendingSearchParamsStore s"] by (auto simp: st)
  have p: "\<not> useIsSearchParamsPending
             (getValue (pendingSearchParamsStore (routePendingEffect previous False s))) names"
    by (simp add: v useIsSearchParamsPending_def)
  have r: "fst (ResponsiveSuspense names suspendOnTransition children childrenCache
                (routePendingEffect previous False s)) \<noteq> Suspend"
    using p by (simp add: ResponsiveSuspense_def CacheRSC_def Let_def)
  from v i p r show ?thesis by simp
qed

theorem settle_clears_pending_witness:
  "Some True \<noteq> Some False \<and>
   getValue (pendingSearchParamsStore janState) = Some (3, plain [(''from'', Str ''feb'')]) \<and>
   useIsSearchParamsPending (getValue (pendingSearchParamsStore janState)) [''from''] \<and>
   getValue (pendingSearchParamsStore (routePendingEffect (Some True) False janState)) = None \<and>
   invoked (pendingSearchParamsStore (routePendingEffect (Some True) False janState)) = [4] \<and>
   \<not> useIsSearchParamsPending
       (getValue (pendingSearchParamsStore (routePendingEffect (Some True) False janState)))
       [''from'']"
proof -
  have e: "getValue (pendingSearchParamsStore janState) = Some (3, plain [(''from'', Str ''feb'')])"
    "useIsSearchParamsPending (getValue (pendingSearchParamsStore janState)) [''from'']"
    "invoked (pendingSearchParamsStore janState) = []"
    "map ident (listeners (pendingSearchParamsStore janState)) = [4]"
    by code_simp+
  have p: "Some True \<noteq> Some False" by simp
  note t = settle_clears_pending
    [OF p, where s = janState and names = "[''from'']"
       and suspendOnTransition = None and children = Null and childrenCache = Map.empty]
  from t have a: "getValue (pendingSearchParamsStore
      (routePendingEffect (Some True) False janState)) = None"
    by blast
  from t e(1) have "invoked (pendingSearchParamsStore
      (routePendingEffect (Some True) False janState))
      = invoked (pendingSearchParamsStore janState)
          @ map ident (listeners (pendingSearchParamsStore janState))"
    by simp
  with e(3,4) have b: "invoked (pendingSearchParamsStore
      (routePendingEffect (Some True) False janState)) = [4]"
    by simp
  from t have c: "\<not> useIsSearchParamsPending
      (getValue (pendingSearchParamsStore (routePendingEffect (Some True) False janState)))
      [''from'']"
    by blast
  from p a b c e(1,2) show ?thesis by simp
qed

section \<open>Pending flag and cache\<close>




text \<open>
  C3. A render that does not suspend returns the cached node of the cache key
  when that node is truthy, whatever the new children are, and leaves the cache as it is.
  When the cache has no entry for the key, or a falsy one (\<^verbatim>\<open>null\<close>, \<^verbatim>\<open>undefined\<close>,
  \<^verbatim>\<open>false\<close>, \<^verbatim>\<open>0\<close>, the empty string), the new children are returned: stored under the
  key first when the fragment is not pending, not stored when it is pending.
\<close>

theorem CacheRSC_cache_policy:
  assumes "\<not> (isPending \<and> suspendOnTransition)"
  shows "(\<forall>e. childrenCache cacheKey = Some e \<and> truthyNode e \<longrightarrow>
            CacheRSC isPending suspendOnTransition cacheKey children childrenCache s
              = (Render e, childrenCache, s)) \<and>
         ((childrenCache cacheKey = None \<or>
           (\<exists>e. childrenCache cacheKey = Some e \<and> \<not> truthyNode e)) \<and> \<not> isPending \<longrightarrow>
            CacheRSC isPending suspendOnTransition cacheKey children childrenCache s
              = (Render children, childrenCache(cacheKey \<mapsto> children), s)) \<and>
         ((childrenCache cacheKey = None \<or>
           (\<exists>e. childrenCache cacheKey = Some e \<and> \<not> truthyNode e)) \<and> isPending \<longrightarrow>
            CacheRSC isPending suspendOnTransition cacheKey children childrenCache s
              = (Render children, childrenCache, s))"
  using assms by (auto simp: CacheRSC_def cacheGet_def Let_def)

theorem CacheRSC_cache_policy_witness:
  "\<not> (False \<and> True) \<and>
   CacheRSC False True ''k'' (Element ''new'') [''k'' \<mapsto> Element ''old''] (mountState [])
     = (Render (Element ''old''), [''k'' \<mapsto> Element ''old''], mountState []) \<and>
   CacheRSC False True ''j'' (Element ''new'') [''k'' \<mapsto> Element ''old''] (mountState [])
     = (Render (Element ''new''), [''k'' \<mapsto> Element ''old'', ''j'' \<mapsto> Element ''new''],
        mountState []) \<and>
   CacheRSC True False ''j'' (Element ''new'') [''k'' \<mapsto> Element ''old''] (mountState [])
     = (Render (Element ''new''), [''k'' \<mapsto> Element ''old''], mountState [])"
  using CacheRSC_cache_policy
      [of False True "[''k'' \<mapsto> Element ''old'']" "''k''" "Element ''new''" "mountState []"]
    CacheRSC_cache_policy
      [of False True "[''k'' \<mapsto> Element ''old'']" "''j''" "Element ''new''" "mountState []"]
    CacheRSC_cache_policy
      [of True False "[''k'' \<mapsto> Element ''old'']" "''j''" "Element ''new''" "mountState []"]
  by simp

text \<open>
  A cached entry that is falsy is not served: rendering \<open>null\<close> children stores them,
  and the next render with other children returns those, not the cached \<open>null\<close>.
\<close>

theorem CacheRSC_falsy_entry_counterexample:
  "CacheRSC False True ''k'' Null Map.empty (mountState [])
     = (Render Null, [''k'' \<mapsto> Null], mountState []) \<and>
   [''k'' \<mapsto> Null] ''k'' = Some Null \<and>
   fst (CacheRSC False True ''k'' (Element ''new'') [''k'' \<mapsto> Null] (mountState []))
     = Render (Element ''new'') \<and>
   Render (Element ''new'') \<noteq> Render Null"
  by (simp add: CacheRSC_def cacheGet_def)

section \<open>Keys\<close>

lemma distinct_map_sort_key:
  "distinct (map f xs) \<Longrightarrow> distinct (map f (sort_key f xs))"
  by (induction xs) (auto simp: distinct_insort_key)

lemma spec_entries:
  assumes wf: "distinct (objectKeys merged)"
    and srt: "sorted declared" and dst: "distinct declared"
    and ne: "\<forall>k\<in>set declared.
               (truthy (getProp merged k) \<or> getProp merged k = Undef) \<and>
               (k \<in> set (objectKeys merged) \<or> objectPrototype k = Undef)"
  shows "sort_key fst
           (filter (\<lambda>p. snd p \<noteq> Undef) (filter (\<lambda>p. fst p \<in> set declared) merged))
         = map (\<lambda>k. (k, getProp merged k))
             (filter (\<lambda>k. truthy (getProp merged k)) declared)"
    (is "?L = map ?g ?ks")
proof -
  let ?F = "filter (\<lambda>p. snd p \<noteq> Undef) (filter (\<lambda>p. fst p \<in> set declared) merged)"
  have dF: "distinct (map fst ?F)"
    using wf by (simp add: objectKeys_def distinct_map_filter)
  have vals: "snd p = getProp merged (fst p)" if "p \<in> set ?L" for p
  proof -
    from that have "(fst p, snd p) \<in> set merged" by simp
    then show ?thesis by (rule getProp_member [OF wf, symmetric])
  qed
  have sets: "set (map fst ?L) = set ?ks"
  proof (intro set_eqI iffI)
    fix k assume "k \<in> set (map fst ?L)"
    then obtain v where kv: "(k, v) \<in> set merged" "v \<noteq> Undef" "k \<in> set declared"
      by auto
    with wf have "getProp merged k = v" by (simp add: getProp_member)
    with kv ne show "k \<in> set ?ks" by (auto simp: truthy_iff_set)
  next
    fix k assume "k \<in> set ?ks"
    then have k: "k \<in> set declared" "truthy (getProp merged k)" by auto
    then have u: "getProp merged k \<noteq> Undef" by auto
    have "k \<in> set (objectKeys merged)"
    proof (rule ccontr)
      assume n: "k \<notin> set (objectKeys merged)"
      with ne k(1) have "objectPrototype k = Undef" by blast
      with n u show False by (simp add: getProp_absent)
    qed
    then have "(k, getProp merged k) \<in> set merged" by (rule getProp_cases)
    with k u show "k \<in> set (map fst ?L)" by force
  qed
  have "map fst ?L = ?ks"
  proof (rule sorted_distinct_set_unique)
    show "sorted (map fst ?L)" by (rule sorted_sort_key)
    show "distinct (map fst ?L)" using dF by (rule distinct_map_sort_key)
    show "sorted ?ks" using srt by (simp add: sorted_wrt_filter)
    show "distinct ?ks" using dst by simp
    show "set (map fst ?L) = set ?ks" by (rule sets)
  qed
  then have "map ?g ?ks = map ?g (map fst ?L)" by simp
  also have "\<dots> = map (\<lambda>p. (fst p, getProp merged (fst p))) ?L" by (simp add: comp_def)
  also have "\<dots> = map (\<lambda>p. p) ?L"
    by (rule map_cong) (simp_all add: vals [symmetric])
  finally show ?thesis by simp
qed

lemma join_append:
  "as \<noteq> [] \<Longrightarrow> bs \<noteq> [] \<Longrightarrow> join sep (as @ bs) = join sep as @ sep @ join sep bs"
proof (induction sep as rule: join.induct)
  case (1 sep)
  then show ?case by simp
next
  case (2 sep x)
  then show ?case by (cases bs) simp_all
next
  case (3 sep x y ys)
  then show ?case by simp
qed

text \<open>
  C6. The cache key takes the declared names in the order of the declared list (it does
  not sort them, and a name listed twice counts twice), keeps those for which
  \<^verbatim>\<open>merged[key]\<close> is truthy, and joins their \<open>key=value\<close> pairs with \<open>&\<close>: one name gives
  its pair or the empty string, and the key of a list followed by another is the key of
  the first, \<open>&\<close>, and the key of the second. The read \<^verbatim>\<open>merged[key]\<close> is the own value, or
  for a name the map does not own the member of \<^verbatim>\<open>Object.prototype\<close>; an unset value and
  the empty string are dropped. The key is the sorted key of the specification when the
  map is well formed, the declared list is strictly ascending, no declared parameter is
  set to a falsy value (the empty string), and every declared name is a key of the map
  or not a member of \<^verbatim>\<open>Object.prototype\<close>.
\<close>

theorem cacheKey_sorted_declared:
  "useCacheKey merged declared =
     join ''&''
       (map (\<lambda>k. k @ ''='' @ toStr (getProp merged k))
         (filter (\<lambda>k. truthy (getProp merged k)) declared)) \<and>
   useCacheKey merged [k] =
     (if truthy (getProp merged k) then k @ ''='' @ toStr (getProp merged k) else []) \<and>
   useCacheKey merged (xs @ ys) =
     (if filter (\<lambda>k. truthy (getProp merged k)) xs = [] then useCacheKey merged ys
      else if filter (\<lambda>k. truthy (getProp merged k)) ys = [] then useCacheKey merged xs
      else useCacheKey merged xs @ ''&'' @ useCacheKey merged ys) \<and>
   (distinct (objectKeys merged) \<and> sorted declared \<and> distinct declared \<and>
    (\<forall>k\<in>set declared.
        (truthy (getProp merged k) \<or> getProp merged k = Undef) \<and>
        (k \<in> set (objectKeys merged) \<or> objectPrototype k = Undef)) \<longrightarrow>
    useCacheKey merged declared = cacheKey_spec merged declared)"
proof (intro conjI impI)
  show "useCacheKey merged declared =
     join ''&''
       (map (\<lambda>k. k @ ''='' @ toStr (getProp merged k))
         (filter (\<lambda>k. truthy (getProp merged k)) declared))"
    by (simp add: useCacheKey_def)
  show "useCacheKey merged [k] =
     (if truthy (getProp merged k) then k @ ''='' @ toStr (getProp merged k) else [])"
    by (simp add: useCacheKey_def)
  show "useCacheKey merged (xs @ ys) =
     (if filter (\<lambda>k. truthy (getProp merged k)) xs = [] then useCacheKey merged ys
      else if filter (\<lambda>k. truthy (getProp merged k)) ys = [] then useCacheKey merged xs
      else useCacheKey merged xs @ ''&'' @ useCacheKey merged ys)"
    by (simp add: useCacheKey_def join_append)
  show "useCacheKey merged declared = cacheKey_spec merged declared"
    if h: "distinct (objectKeys merged) \<and> sorted declared \<and> distinct declared \<and>
      (\<forall>k\<in>set declared.
          (truthy (getProp merged k) \<or> getProp merged k = Undef) \<and>
          (k \<in> set (objectKeys merged) \<or> objectPrototype k = Undef))"
  proof -
    from h have e: "sort_key fst
           (filter (\<lambda>p. snd p \<noteq> Undef) (filter (\<lambda>p. fst p \<in> set declared) merged))
         = map (\<lambda>k. (k, getProp merged k))
             (filter (\<lambda>k. truthy (getProp merged k)) declared)"
      by (intro spec_entries) simp_all
    show ?thesis
      unfolding useCacheKey_def cacheKey_spec_def e by (simp add: comp_def)
  qed
qed

theorem cacheKey_sorted_declared_witness:
  "distinct (objectKeys [(''to'', Str ''2''), (''from'', Str ''1''), (''x'', Undef)]) \<and>
   sorted [''from'', ''to'', ''x'', ''zz''] \<and> distinct [''from'', ''to'', ''x'', ''zz''] \<and>
   useCacheKey [(''to'', Str ''2''), (''from'', Str ''1''), (''x'', Undef)]
      [''from'', ''to'', ''x'', ''zz''] = ''from=1&to=2'' \<and>
   cacheKey_spec [(''to'', Str ''2''), (''from'', Str ''1''), (''x'', Undef)]
      [''from'', ''to'', ''x'', ''zz''] = ''from=1&to=2'' \<and>
   useCacheKey [] [''constructor''] = ''constructor=function Object() { [native code] }''"
proof -
  have h: "distinct (objectKeys [(''to'', Str ''2''), (''from'', Str ''1''), (''x'', Undef)])"
    "sorted [''from'', ''to'', ''x'', ''zz'']" "distinct [''from'', ''to'', ''x'', ''zz'']"
    by code_simp+
  have n: "\<forall>k\<in>set [''from'', ''to'', ''x'', ''zz''].
             (truthy (getProp [(''to'', Str ''2''), (''from'', Str ''1''), (''x'', Undef)] k) \<or>
              getProp [(''to'', Str ''2''), (''from'', Str ''1''), (''x'', Undef)] k = Undef) \<and>
             (k \<in> set (objectKeys [(''to'', Str ''2''), (''from'', Str ''1''), (''x'', Undef)]) \<or>
              objectPrototype k = Undef)"
    by (simp add: getProp_def objectKeys_def objectPrototype_def objectPrototypeFunctions_def)
  have e: "useCacheKey [(''to'', Str ''2''), (''from'', Str ''1''), (''x'', Undef)]
      [''from'', ''to'', ''x'', ''zz''] = ''from=1&to=2''"
    "truthy (getProp [] ''constructor'')"
    "''constructor'' @ ''='' @ toStr (getProp [] ''constructor'')
       = ''constructor=function Object() { [native code] }''"
    by code_simp+
  note t = cacheKey_sorted_declared
    [of "[(''to'', Str ''2''), (''from'', Str ''1''), (''x'', Undef)]"
        "[''from'', ''to'', ''x'', ''zz'']"]
  from t h n
  have a: "useCacheKey [(''to'', Str ''2''), (''from'', Str ''1''), (''x'', Undef)]
             [''from'', ''to'', ''x'', ''zz'']
           = cacheKey_spec [(''to'', Str ''2''), (''from'', Str ''1''), (''x'', Undef)]
             [''from'', ''to'', ''x'', ''zz'']"
    by blast
  from cacheKey_sorted_declared [of "[]" "[]" "''constructor''"] e(2,3)
  have b: "useCacheKey [] [''constructor''] = ''constructor=function Object() { [native code] }''"
    by simp
  from a b h e(1) show ?thesis by simp
qed

text \<open>
  The key is not sorted by key name: the declared list \<open>[to, from]\<close> gives
  \<open>to=2&from=1\<close>. A parameter set to the empty string is dropped, not rendered as \<open>a=\<close>.
  A declared name that the map does not own and \<^verbatim>\<open>Object.prototype\<close> has is not dropped.
\<close>

theorem cacheKey_order_counterexample:
  "useCacheKey [(''from'', Str ''1''), (''to'', Str ''2'')] [''to'', ''from''] = ''to=2&from=1'' \<and>
   cacheKey_spec [(''from'', Str ''1''), (''to'', Str ''2'')] [''to'', ''from''] = ''from=1&to=2'' \<and>
   useCacheKey [(''from'', Str ''1''), (''to'', Str ''2'')] [''to'', ''from'']
     \<noteq> cacheKey_spec [(''from'', Str ''1''), (''to'', Str ''2'')] [''to'', ''from''] \<and>
   useCacheKey [(''a'', Str [])] [''a''] = [] \<and>
   cacheKey_spec [(''a'', Str [])] [''a''] = ''a='' \<and>
   useCacheKey [] [''constructor''] = ''constructor=function Object() { [native code] }'' \<and>
   cacheKey_spec [] [''constructor''] = []"
  by (intro conjI; code_simp)

lemma stringifyStep_cong: "getProp ps = getProp qs \<Longrightarrow> stringifyStep ps = stringifyStep qs"
  by (simp add: stringifyStep_def fun_eq_iff)

text \<open>
  C7. Two well-formed parameter maps with the same key/value pairs, listed in any two
  orders, give the same cache key for every declared list and the same visited key for
  every current URL.
\<close>

theorem keys_insertion_order_independent:
  assumes "distinct (objectKeys ps)" "distinct (objectKeys qs)" "set ps = set qs"
  shows "useCacheKey ps searchParamsUsed = useCacheKey qs searchParamsUsed \<and>
         stringifySearchParams search ps = stringifySearchParams search qs"
proof -
  have g: "getProp ps = getProp qs" using assms by (rule getProp_permutation)
  have k: "sort (objectKeys ps) = sort (objectKeys qs)" using assms by (rule sort_keys_permutation)
  have "useCacheKey ps searchParamsUsed = useCacheKey qs searchParamsUsed"
    by (simp add: useCacheKey_def g)
  moreover have "stringifySearchParams search ps = stringifySearchParams search qs"
    by (simp add: stringifySearchParams_def stringifyPairs_def k stringifyStep_cong [OF g])
  ultimately show ?thesis by simp
qed

theorem keys_insertion_order_independent_witness:
  "distinct (objectKeys [(''from'', Str ''1''), (''to'', Str ''2'')]) \<and>
   distinct (objectKeys [(''to'', Str ''2''), (''from'', Str ''1'')]) \<and>
   set [(''from'', Str ''1''), (''to'', Str ''2'')] = set [(''to'', Str ''2''), (''from'', Str ''1'')] \<and>
   useCacheKey [(''to'', Str ''2''), (''from'', Str ''1'')] [''from'', ''to''] = ''from=1&to=2'' \<and>
   useCacheKey [(''from'', Str ''1''), (''to'', Str ''2'')] [''from'', ''to''] = ''from=1&to=2'' \<and>
   stringifySearchParams [(''q'', ''z'')] [(''to'', Str ''2''), (''from'', Str ''1'')] = ''q=z&from=1&to=2'' \<and>
   stringifySearchParams [(''q'', ''z'')] [(''from'', Str ''1''), (''to'', Str ''2'')] = ''q=z&from=1&to=2''"
proof -
  have h: "distinct (objectKeys [(''from'', Str ''1''), (''to'', Str ''2'')])"
    "distinct (objectKeys [(''to'', Str ''2''), (''from'', Str ''1'')])"
    by code_simp+
  have s: "set [(''from'', Str ''1''), (''to'', Str ''2'')] = set [(''to'', Str ''2''), (''from'', Str ''1'')]"
    by auto
  have e: "useCacheKey [(''to'', Str ''2''), (''from'', Str ''1'')] [''from'', ''to''] = ''from=1&to=2''"
    "stringifySearchParams [(''q'', ''z'')] [(''to'', Str ''2''), (''from'', Str ''1'')] = ''q=z&from=1&to=2''"
    by code_simp+
  from keys_insertion_order_independent [OF h s, of "[''from'', ''to'']" "[(''q'', ''z'')]"] h s e
  show ?thesis by simp
qed

lemma filter_usp_set:
  "(\<And>w. \<not> R (k, w)) \<Longrightarrow> filter R (usp_set k v u) = filter R u"
proof (induction u)
  case Nil
  then show ?case by simp
next
  case (Cons p u)
  obtain n w where p: "p = (n, w)" by (cases p)
  show ?case
  proof (cases "n = k")
    case True
    have "filter R (filter (\<lambda>p. fst p \<noteq> k) u) = filter R u"
      using Cons.prems by (induction u) auto
    with True p Cons.prems show ?thesis by simp
  next
    case False
    with p Cons show ?thesis by simp
  qed
qed

lemma filter_fold_append:
  "(\<And>w. \<not> R (k, w)) \<Longrightarrow> filter R (fold (\<lambda>v acc. usp_append k v acc) vs u) = filter R u"
  by (induction vs arbitrary: u) (simp_all add: usp_append_def)

lemma filter_stringifyStep:
  assumes "key \<in> set (objectKeys params)"
  shows "filter (\<lambda>p. \<not> truthy (ownValue params (fst p))) (stringifyStep params key u)
           = filter (\<lambda>p. \<not> truthy (ownValue params (fst p))) u"
proof (cases "truthy (getProp params key)")
  case True
  with assms have "truthy (ownValue params key)" by (simp add: getProp_own_key)
  then show ?thesis
    using True
    by (cases "getProp params key")
      (simp_all add: stringifyStep_def filter_usp_set filter_fold_append)
next
  case False
  then show ?thesis by (simp add: stringifyStep_def)
qed

lemma filter_fold_stringifyStep:
  "set ks \<subseteq> set (objectKeys params) \<Longrightarrow>
   filter (\<lambda>p. \<not> truthy (ownValue params (fst p))) (fold (stringifyStep params) ks u)
     = filter (\<lambda>p. \<not> truthy (ownValue params (fst p))) u"
  by (induction ks arbitrary: u) (simp_all add: filter_stringifyStep)

lemma stringifyPairs_retains:
  "filter (\<lambda>p. \<not> truthy (ownValue params (fst p))) (stringifyPairs search params)
     = filter (\<lambda>p. \<not> truthy (ownValue params (fst p))) search"
  by (simp add: stringifyPairs_def filter_fold_stringifyStep)

text \<open>
  C10. The serialisation starts from the pairs of the current URL: the pairs whose name
  has no truthy own value in the supplied map come out as they went in, in the same order,
  so a pair of the URL whose name is not a key of the map is among the serialised pairs;
  and one map gives different strings under different URLs.
\<close>

theorem stringify_seeded_from_url:
  "stringifySearchParams search params = usp_toString (stringifyPairs search params) \<and>
   filter (\<lambda>p. \<not> truthy (ownValue params (fst p))) (stringifyPairs search params)
     = filter (\<lambda>p. \<not> truthy (ownValue params (fst p))) search \<and>
   ((k, v) \<in> set search \<and> k \<notin> set (objectKeys params) \<longrightarrow>
      (k, v) \<in> set (stringifyPairs search params)) \<and>
   stringifySearchParams [] [(''a'', Str ''1'')]
     \<noteq> stringifySearchParams [(''b'', ''2'')] [(''a'', Str ''1'')]"
proof (intro conjI impI)
  show "stringifySearchParams search params = usp_toString (stringifyPairs search params)"
    by (simp add: stringifySearchParams_def)
  show "filter (\<lambda>p. \<not> truthy (ownValue params (fst p))) (stringifyPairs search params)
     = filter (\<lambda>p. \<not> truthy (ownValue params (fst p))) search"
    by (rule stringifyPairs_retains)
  show "(k, v) \<in> set (stringifyPairs search params)"
    if h: "(k, v) \<in> set search \<and> k \<notin> set (objectKeys params)"
  proof -
    from h have "\<not> truthy (ownValue params k)" by (simp add: ownValue_absent)
    with h have "(k, v) \<in> set (filter (\<lambda>p. \<not> truthy (ownValue params (fst p))) search)"
      by simp
    then have "(k, v) \<in> set (filter (\<lambda>p. \<not> truthy (ownValue params (fst p)))
                  (stringifyPairs search params))"
      by (simp only: stringifyPairs_retains)
    then show ?thesis by simp
  qed
  show "stringifySearchParams [] [(''a'', Str ''1'')]
     \<noteq> stringifySearchParams [(''b'', ''2'')] [(''a'', Str ''1'')]"
    by code_simp
qed

theorem stringify_seeded_from_url_witness:
  "(''b'', ''2'') \<in> set [(''b'', ''2''), (''a'', ''0'')] \<and>
   ''b'' \<notin> set (objectKeys [(''a'', Str ''1'')]) \<and>
   (''b'', ''2'') \<in> set (stringifyPairs [(''b'', ''2''), (''a'', ''0'')] [(''a'', Str ''1'')]) \<and>
   stringifySearchParams [(''b'', ''2''), (''a'', ''0'')] [(''a'', Str ''1'')] = ''b=2&a=1'' \<and>
   stringifySearchParams [] [(''a'', Str ''1'')] = ''a=1''"
proof -
  have h: "(''b'', ''2'') \<in> set [(''b'', ''2''), (''a'', ''0'')]"
    "''b'' \<notin> set (objectKeys [(''a'', Str ''1'')])"
    by code_simp+
  have e: "stringifySearchParams [(''b'', ''2''), (''a'', ''0'')] [(''a'', Str ''1'')] = ''b=2&a=1''"
    "stringifySearchParams [] [(''a'', Str ''1'')] = ''a=1''"
    by code_simp+
  from stringify_seeded_from_url
    [of "[(''b'', ''2''), (''a'', ''0'')]" "[(''a'', Str ''1'')]" "''b''" "''2''"] h
  have "(''b'', ''2'') \<in> set (stringifyPairs [(''b'', ''2''), (''a'', ''0'')] [(''a'', Str ''1'')])"
    by blast
  with h e show ?thesis by simp
qed

end
